theory Spec2Isabelle
  imports Complex_Main
begin

section \<open>WattCompare backend: the model\<close>

text \<open>
  The backend is one Python module: an OCR stage that reads an annual energy figure off a
  label, a single SQLite table of appliances, a comparison of two stored appliances, and a
  PDF listing. Each handler is embedded as a function of the store and the request that
  returns the new store and either the reply or the uncaught exception (which the web
  framework turns into a status 500 answer).

  Conventions of the embedding.
  \<^item> Python floats are idealised as reals: rounding, infinities and NaN are not
    represented.
  \<^item> Text is a list of code points below 256. Lower-casing, the digit class and the
    whitespace class are those of Python 3 on that range.
  \<^item> The image decoder and the OCR engine are external. An uploaded image is represented
    by what they produce for it: the recognised text, or a failure.
  \<^item> Exceptions are values of \<open>error\<close>; a function that can raise returns \<open>error + 'a\<close>.
\<close>

datatype error =
    ValueError
  | IndexError
  | TypeError
  | OverflowError
  | ExternalError
  | DatabaseFull

subsection \<open>Characters and lower-casing\<close>

definition is_digit :: "char \<Rightarrow> bool" where
  "is_digit c \<longleftrightarrow> 48 \<le> (of_char c :: nat) \<and> (of_char c :: nat) \<le> 57"

text \<open>
  The whitespace class of a Python 3 string pattern: tab, line feed, vertical tab, form
  feed, carriage return, the four separators 28 to 31, space, next-line (133) and the
  no-break space (160).
\<close>

definition is_space :: "char \<Rightarrow> bool" where
  "is_space c \<longleftrightarrow> (of_char c :: nat) \<in> {9, 10, 11, 12, 13, 28, 29, 30, 31, 32, 133, 160}"

text \<open>
  \<open>str.lower\<close> on one code point: the letters A to Z and the accented capitals 192 to 222
  (the multiplication sign 215 apart) move up by 32, everything else stays.
\<close>

definition lower_char :: "char \<Rightarrow> char" where
  "lower_char c =
     (let n = (of_char c :: nat)
      in if (65 \<le> n \<and> n \<le> 90) \<or> (192 \<le> n \<and> n \<le> 222 \<and> n \<noteq> 215)
         then char_of (n + 32) else c)"

definition lower :: "string \<Rightarrow> string" where
  "lower s = map lower_char s"

subsection \<open>The regular expression of the OCR stage\<close>

text \<open>
  The source searches the lower-cased text with the pattern
  \<^verbatim>\<open>(\d+\.?\d*)\s*(kwh|kw)\<close>. The pattern is kept as a syntax tree, and matching follows
  the backtracking order of Python's engine: \<open>matches r s\<close> lists every way in which \<open>r\<close>
  matches a prefix of \<open>s\<close>, the preferred way first, each with the captured groups and
  the text left over. Greedy repetition prefers the longest run, an optional part prefers
  to be present, and an alternation prefers its left branch.
\<close>

datatype regex =
    Lit string
  | Rep "char \<Rightarrow> bool" nat
  | Opt regex
  | Seq regex regex
  | Alt regex regex
  | Group regex

text \<open>\<open>rep p n s\<close>: what is left of \<open>s\<close> after at least \<open>n\<close> characters of class \<open>p\<close>, longest run first.\<close>

fun rep :: "(char \<Rightarrow> bool) \<Rightarrow> nat \<Rightarrow> string \<Rightarrow> string list" where
  "rep p n [] = (if n = 0 then [[]] else [])"
| "rep p n (c # cs) =
     (if p c then rep p (n - 1) cs else []) @ (if n = 0 then [c # cs] else [])"

fun matches :: "regex \<Rightarrow> string \<Rightarrow> (string list \<times> string) list" where
  "matches (Lit w) s = (if take (length w) s = w then [([], drop (length w) s)] else [])"
| "matches (Rep p n) s = map (\<lambda>r. ([], r)) (rep p n s)"
| "matches (Opt r) s = matches r s @ [([], s)]"
| "matches (Seq a b) s =
     concat (map (\<lambda>(g, s'). map (\<lambda>(h, s''). (g @ h, s'')) (matches b s')) (matches a s))"
| "matches (Alt a b) s = matches a s @ matches b s"
| "matches (Group r) s =
     map (\<lambda>(g, s'). (take (length s - length s') s # g, s')) (matches r s)"

text \<open>
  \<open>re.search\<close>: the match at the leftmost position that has one, as the offset of that
  position and the captured groups; \<open>None\<close> when no position has a match.
\<close>

fun re_search :: "regex \<Rightarrow> string \<Rightarrow> (nat \<times> string list) option" where
  "re_search r [] = (case matches r [] of [] \<Rightarrow> None | (g, _) # _ \<Rightarrow> Some (0, g))"
| "re_search r (c # cs) =
     (case matches r (c # cs) of
        (g, _) # _ \<Rightarrow> Some (0, g)
      | [] \<Rightarrow> map_option (\<lambda>(i, g). (Suc i, g)) (re_search r cs))"

definition number_rx :: regex where
  "number_rx = Seq (Rep is_digit 1) (Seq (Opt (Lit ''.'')) (Rep is_digit 0))"

definition unit_rx :: regex where
  "unit_rx = Alt (Lit ''kwh'') (Lit ''kw'')"

definition energy_rx :: regex where
  "energy_rx = Seq (Group number_rx) (Seq (Rep is_space 0) (Group unit_rx))"

text \<open>\<open>match.group(k)\<close> for \<open>k \<ge> 1\<close>; a group the pattern does not have raises.\<close>

definition group :: "string list \<Rightarrow> nat \<Rightarrow> error + string" where
  "group g k = (if 1 \<le> k \<and> k \<le> length g then Inr (g ! (k - 1)) else Inl IndexError)"

text \<open>
  \<open>float\<close> on an unsigned decimal literal (digits, digits with a point, a point with
  digits). Every other string is reported as \<open>ValueError\<close>; the built-in accepts more
  (signs, exponents, surrounding blanks), so the model raises at least where Python does.
\<close>

definition digits_value :: "string \<Rightarrow> nat" where
  "digits_value ds = foldl (\<lambda>a c. 10 * a + (of_char c - 48)) 0 ds"

definition py_float :: "string \<Rightarrow> error + real" where
  "py_float s =
     (let ip = takeWhile is_digit s
      in case dropWhile is_digit s of
           [] \<Rightarrow> if ip = [] then Inl ValueError else Inr (real (digits_value ip))
         | c # fp \<Rightarrow>
             if c = CHR ''.'' \<and> list_all is_digit fp \<and> (ip \<noteq> [] \<or> fp \<noteq> [])
             then Inr (real (digits_value ip) + real (digits_value fp) / 10 ^ length fp)
             else Inl ValueError)"

subsection \<open>OCR extraction\<close>

text \<open>
  The second half of \<open>extract_energy_from_image\<close>, from the recognised text on: lower-case,
  search, convert, annualise a power in kW. The raw text is returned as it came.
\<close>

definition unit_normalizer :: "string \<Rightarrow> error + (real option \<times> string)" where
  "unit_normalizer text =
     (let text_low = lower text
      in case re_search energy_rx text_low of
           None \<Rightarrow> Inr (None, text)
         | Some (i, g) \<Rightarrow>
             (case group g 1 of
                Inl e \<Rightarrow> Inl e
              | Inr num \<Rightarrow>
                  (case py_float num of
                     Inl e \<Rightarrow> Inl e
                   | Inr val \<Rightarrow>
                       (case group g 2 of
                          Inl e \<Rightarrow> Inl e
                        | Inr unit \<Rightarrow>
                            Inr (Some (if unit = ''kw'' then val * 24 * 365 else val), text)))))"

text \<open>
  An uploaded image, seen through the external decoder and OCR engine: either they fail
  (the bytes are not an image, the engine is missing) or they yield a text.
\<close>

datatype scan = Unreadable | Scanned string

definition extract_energy_from_image :: "scan \<Rightarrow> error + (real option \<times> string)" where
  "extract_energy_from_image image_bytes =
     (case image_bytes of
        Unreadable \<Rightarrow> Inl ExternalError
      | Scanned text \<Rightarrow> unit_normalizer text)"

subsection \<open>The pattern in the words of the specification\<close>

text \<open>
  A decimal number (digits, an optional point, more digits) followed, after optional
  whitespace, by the unit token kwh or kw, at the start of \<open>s\<close>; and the same somewhere
  in \<open>s\<close>.
\<close>

definition number_unit_at :: "string \<Rightarrow> bool" where
  "number_unit_at s \<longleftrightarrow>
     (\<exists>ds dot fs ws u rest.
        s = ds @ dot @ fs @ ws @ u @ rest \<and> ds \<noteq> [] \<and> list_all is_digit ds \<and>
        (dot = [] \<or> dot = ''.'') \<and> list_all is_digit fs \<and> list_all is_space ws \<and>
        (u = ''kwh'' \<or> u = ''kw''))"

definition pattern_occurs :: "string \<Rightarrow> bool" where
  "pattern_occurs s \<longleftrightarrow> (\<exists>i\<le>length s. number_unit_at (drop i s))"

text \<open>The language of a pattern, without any order of preference.\<close>

fun lang :: "regex \<Rightarrow> string set" where
  "lang (Lit w) = {w}"
| "lang (Rep p n) = {w. n \<le> length w \<and> list_all p w}"
| "lang (Opt r) = lang r \<union> {[]}"
| "lang (Seq a b) = {u @ v | u v. u \<in> lang a \<and> v \<in> lang b}"
| "lang (Alt a b) = lang a \<union> lang b"
| "lang (Group r) = lang r"

subsection \<open>The appliance table\<close>

text \<open>
  One row of the table \<open>appliances\<close>. The key is an alias of SQLite's rowid; every other
  column is nullable. The store is the table, in rowid order, together with the counter
  that AUTOINCREMENT keeps of the largest key ever given out.
\<close>

record row =
  rowid :: int
  name :: "string option"
  energy_kwh :: "real option"
  price :: "real option"
  energy_rate :: "real option"
  timestamp :: "string option"

record store =
  rows :: "row list"
  seq :: int

text \<open>\<open>init_db\<close> creates the table only if the database file does not have it yet.\<close>

definition init_db :: "store option \<Rightarrow> store" where
  "init_db file = (case file of None \<Rightarrow> \<lparr>rows = [], seq = 0\<rparr> | Some s \<Rightarrow> s)"

text \<open>
  The INSERT of \<open>add_appliance\<close>: the key is the counter plus one, the timestamp is the
  clock reading \<open>now\<close> (the column's default). Once the largest 64-bit key has been used,
  SQLite refuses further rows.
\<close>

definition insert_appliance ::
  "string \<Rightarrow> store \<Rightarrow> string option \<Rightarrow> real option \<Rightarrow> real \<Rightarrow> real \<Rightarrow> error + store" where
  "insert_appliance now s n e p r =
     (if 2 ^ 63 - 1 \<le> seq s then Inl DatabaseFull
      else let i = seq s + 1
           in Inr (s\<lparr>rows := rows s @
                       [\<lparr>rowid = i, name = n, energy_kwh = e, price = Some p,
                         energy_rate = Some r, timestamp = Some now\<rparr>],
                     seq := i\<rparr>))"

subsection \<open>Requests and replies\<close>

text \<open>
  A numeric form field, by what \<open>float(request.form.get(field, 0))\<close> makes of it: the
  field is missing (the default 0 is converted), its text is not a number (the conversion
  raises), or it is a number.
\<close>

datatype form_number = Missing | Malformed | Number real

definition form_float :: "form_number \<Rightarrow> error + real" where
  "form_float f = (case f of Missing \<Rightarrow> Inr 0 | Malformed \<Rightarrow> Inl ValueError | Number v \<Rightarrow> Inr v)"

record upload =
  filename :: string
  content :: scan

record add_form =
  form_name :: "string option"
  form_price :: form_number
  form_energy_rate :: form_number
  form_image :: "upload option"

record side =
  side_name :: "string option"
  annual_cost :: "real option"
  carbon :: "real option"

datatype content =
    Title
  | Line "string option" "real option" "real option" "real option"

datatype drawn = DrawString int int "string \<times> nat" content

datatype reply =
    Endpoints
  | OcrResult "real option" string
  | Saved "string option" "real option"
  | Listing "row list"
  | Comparison side side "string option"
  | PdfFile "drawn list list"
  | ErrorJson nat string

datatype request =
    Home
  | Ocr "upload option"
  | AddAppliance add_form
  | ListAppliances
  | Compare "int list option"
  | ExportPdf

subsection \<open>The handlers\<close>

definition ocr_route :: "upload option \<Rightarrow> error + reply" where
  "ocr_route img =
     (case img of
        None \<Rightarrow> Inr (ErrorJson 400 ''No image uploaded'')
      | Some file \<Rightarrow>
          (case extract_energy_from_image (content file) of
             Inl e \<Rightarrow> Inl e
           | Inr (energy, raw) \<Rightarrow> Inr (OcrResult energy raw)))"

text \<open>
  \<open>add_appliance\<close>: both numbers are converted first, then an uploaded file with a
  non-empty file name (the truth value of the upload object) is read for its energy
  figure (\<open>read_image\<close>, the lines from \<open>energy_kwh = None\<close> to the call of the OCR
  stage), then the row is inserted.
\<close>

definition read_image :: "upload option \<Rightarrow> error + real option" where
  "read_image img =
     (case img of
        None \<Rightarrow> Inr None
      | Some file \<Rightarrow>
          if filename file \<noteq> []
          then (case extract_energy_from_image (content file) of
                  Inl e \<Rightarrow> Inl e
                | Inr (energy, raw) \<Rightarrow> Inr energy)
          else Inr None)"

definition add_appliance :: "string \<Rightarrow> store \<Rightarrow> add_form \<Rightarrow> error + (store \<times> reply)" where
  "add_appliance now s form =
     (case form_float (form_price form) of
        Inl e \<Rightarrow> Inl e
      | Inr price' \<Rightarrow>
          (case form_float (form_energy_rate form) of
             Inl e \<Rightarrow> Inl e
           | Inr energy_rate' \<Rightarrow>
               (case read_image (form_image form) of
                  Inl e \<Rightarrow> Inl e
                | Inr energy_kwh' \<Rightarrow>
                    (case insert_appliance now s (form_name form) energy_kwh' price' energy_rate' of
                       Inl e \<Rightarrow> Inl e
                     | Inr s' \<Rightarrow> Inr (s', Saved (form_name form) energy_kwh')))))"

definition list_appliances :: "store \<Rightarrow> reply" where
  "list_appliances s = Listing (rows s)"

text \<open>
  The query of \<open>compare\<close>, \<^verbatim>\<open>SELECT * FROM appliances WHERE id IN (?, ?)\<close>: an integer
  outside the signed 64-bit range cannot be bound and raises; otherwise every row whose key
  is one of the two values is returned once, in rowid order.
\<close>

definition sqlite_int :: "int \<Rightarrow> bool" where
  "sqlite_int i \<longleftrightarrow> - (2 ^ 63) \<le> i \<and> i \<le> 2 ^ 63 - 1"

definition select_by_ids :: "store \<Rightarrow> int \<Rightarrow> int \<Rightarrow> error + row list" where
  "select_by_ids s i j =
     (if sqlite_int i \<and> sqlite_int j
      then Inr (filter (\<lambda>r. rowid r = i \<or> rowid r = j) (rows s))
      else Inl OverflowError)"

text \<open>
  \<open>total_cost\<close> reads columns 2 and 4 of the selected row, which are \<open>energy_kwh\<close> and
  \<open>energy_rate\<close>; a column is truthy when it is neither NULL nor zero.
\<close>

definition total_cost :: "row \<Rightarrow> real option" where
  "total_cost a =
     (case (energy_kwh a, energy_rate a) of
        (Some e, Some r) \<Rightarrow> if e \<noteq> 0 \<and> r \<noteq> 0 then Some (e * r) else None
      | _ \<Rightarrow> None)"

definition carbon_of :: "real option \<Rightarrow> real option" where
  "carbon_of cost =
     (case cost of Some c \<Rightarrow> if c \<noteq> 0 then Some (c * 0.82) else None | None \<Rightarrow> None)"

text \<open>Python's \<open><\<close> on two optional numbers: \<open>None\<close> is not ordered against anything.\<close>

definition less_than :: "real option \<Rightarrow> real option \<Rightarrow> error + bool" where
  "less_than a b = (case (a, b) of (Some x, Some y) \<Rightarrow> Inr (x < y) | _ \<Rightarrow> Inl TypeError)"

text \<open>
  \<open>compare\<close>. The body's \<open>ids\<close> is absent (or null), or a list of integers; other JSON
  shapes are outside the model.
\<close>

definition compare :: "store \<Rightarrow> int list option \<Rightarrow> error + reply" where
  "compare s ids =
     (case ids of
        None \<Rightarrow> Inr (ErrorJson 400 ''Exactly 2 IDs required'')
      | Some l \<Rightarrow>
          if l = [] \<or> length l \<noteq> 2 then Inr (ErrorJson 400 ''Exactly 2 IDs required'')
          else
            (case select_by_ids s (l ! 0) (l ! 1) of
               Inl e \<Rightarrow> Inl e
             | Inr [a1, a2] \<Rightarrow>
                 (let cost1 = total_cost a1; cost2 = total_cost a2;
                      carbon1 = carbon_of cost1; carbon2 = carbon_of cost2
                  in case less_than cost1 cost2 of
                       Inl e \<Rightarrow> Inl e
                     | Inr lt \<Rightarrow>
                         (let recommended = (if lt then a1 else a2)
                          in Inr (Comparison
                                \<lparr>side_name = name a1, annual_cost = cost1, carbon = carbon1\<rparr>
                                \<lparr>side_name = name a2, annual_cost = cost2, carbon = carbon2\<rparr>
                                (name recommended))))
             | Inr _ \<Rightarrow> Inr (ErrorJson 404 ''Invalid appliance IDs'')))"

subsection \<open>The PDF canvas\<close>

text \<open>
  The canvas of the PDF library, as far as the export uses it: the finished pages, the
  strings drawn on the current page, and the current font. \<open>showPage\<close> closes the current
  page and starts an empty one with the initial font; \<open>save\<close> closes the current page if
  something was drawn on it and yields the document.
\<close>

record canvas =
  pages :: "drawn list list"
  code :: "drawn list"
  font :: "string \<times> nat"

definition Canvas :: canvas where
  "Canvas = \<lparr>pages = [], code = [], font = (''Helvetica'', 12)\<rparr>"

definition setFont :: "string \<Rightarrow> nat \<Rightarrow> canvas \<Rightarrow> canvas" where
  "setFont psfontname sz pdf = pdf\<lparr>font := (psfontname, sz)\<rparr>"

definition drawString :: "int \<Rightarrow> int \<Rightarrow> content \<Rightarrow> canvas \<Rightarrow> canvas" where
  "drawString x y txt pdf = pdf\<lparr>code := code pdf @ [DrawString x y (font pdf) txt]\<rparr>"

definition showPage :: "canvas \<Rightarrow> canvas" where
  "showPage pdf = pdf\<lparr>pages := pages pdf @ [code pdf], code := [], font := (''Helvetica'', 12)\<rparr>"

definition save :: "canvas \<Rightarrow> drawn list list" where
  "save pdf = (if code pdf \<noteq> [] then pages (showPage pdf) else pages pdf)"

text \<open>
  The loop of \<open>export_pdf\<close> over the selected rows, with the pen height \<open>y\<close>;
  \<open>selected\<close> is its query, the four columns of every row in rowid order.
\<close>

fun draw_rows ::
  "int \<Rightarrow> canvas \<Rightarrow> (string option \<times> real option \<times> real option \<times> real option) list
     \<Rightarrow> int \<times> canvas" where
  "draw_rows y pdf [] = (y, pdf)"
| "draw_rows y pdf ((n, e, p, r) # data) =
     (let pdf = drawString 40 y (Line n e p r) pdf;
          y = y - 20
      in if y < 100 then draw_rows 800 (showPage pdf) data else draw_rows y pdf data)"

text \<open>
  One line per record below one another, the pen moving down by 20 from \<open>y\<close>: what a
  page shows when no page break falls among the records.
\<close>

fun lines_from ::
  "int \<Rightarrow> string \<times> nat \<Rightarrow> (string option \<times> real option \<times> real option \<times> real option) list
     \<Rightarrow> drawn list" where
  "lines_from y f [] = []"
| "lines_from y f ((n, e, p, r) # data) = DrawString 40 y f (Line n e p r) # lines_from (y - 20) f data"

definition selected :: "store \<Rightarrow> (string option \<times> real option \<times> real option \<times> real option) list" where
  "selected s = map (\<lambda>a. (name a, energy_kwh a, price a, energy_rate a)) (rows s)"

definition export_pdf :: "store \<Rightarrow> reply" where
  "export_pdf s =
     (let data = selected s;
          pdf = Canvas;
          pdf = setFont ''Helvetica-Bold'' 18 pdf;
          pdf = drawString 200 800 Title pdf;
          pdf = setFont ''Helvetica'' 12 pdf;
          (y, pdf) = draw_rows 770 pdf data
      in PdfFile (save pdf))"

subsection \<open>The server as a transition system\<close>

text \<open>
  One request against the store at clock reading \<open>now\<close>. Only a successful
  \<open>add_appliance\<close> writes; an uncaught exception leaves the store as it was.
\<close>

definition handle :: "string \<Rightarrow> store \<Rightarrow> request \<Rightarrow> store \<times> (error + reply)" where
  "handle now s req =
     (case req of
        Home \<Rightarrow> (s, Inr Endpoints)
      | Ocr img \<Rightarrow> (s, ocr_route img)
      | AddAppliance form \<Rightarrow>
          (case add_appliance now s form of
             Inl e \<Rightarrow> (s, Inl e)
           | Inr (s', resp) \<Rightarrow> (s', Inr resp))
      | ListAppliances \<Rightarrow> (s, Inr (list_appliances s))
      | Compare ids \<Rightarrow> (s, compare s ids)
      | ExportPdf \<Rightarrow> (s, Inr (export_pdf s)))"

definition status :: "error + reply \<Rightarrow> nat" where
  "status res = (case res of Inl e \<Rightarrow> 500 | Inr (ErrorJson c m) \<Rightarrow> c | Inr _ \<Rightarrow> 200)"

fun run :: "store \<Rightarrow> (string \<times> request) list \<Rightarrow> store" where
  "run s [] = s"
| "run s ((now, req) # reqs) = run (fst (handle now s req)) reqs"

inductive reachable :: "store \<Rightarrow> bool" where
  fresh: "reachable (init_db None)"
| step: "reachable s \<Longrightarrow> reachable (fst (handle now s req))"

text \<open>
  What every row of a store built by this server satisfies: keys are distinct, positive and
  at most the counter; the counter stays in the 64-bit range; a stored energy figure is
  not negative; price, rate and timestamp are never NULL.
\<close>

definition row_ok :: "int \<Rightarrow> row \<Rightarrow> bool" where
  "row_ok m r \<longleftrightarrow>
     1 \<le> rowid r \<and> rowid r \<le> m \<and>
     (case energy_kwh r of None \<Rightarrow> True | Some v \<Rightarrow> 0 \<le> v) \<and>
     price r \<noteq> None \<and> energy_rate r \<noteq> None \<and> timestamp r \<noteq> None"

definition store_inv :: "store \<Rightarrow> bool" where
  "store_inv s \<longleftrightarrow>
     0 \<le> seq s \<and> seq s \<le> 2 ^ 63 - 1 \<and> distinct (map rowid (rows s)) \<and>
     list_all (row_ok (seq s)) (rows s)"

subsection \<open>A small session\<close>

text \<open>
  Four appliances are added to a fresh database: two with a label in kWh, one without an
  image, one with a label in kW. The examples below run against the resulting store.
\<close>

definition label_form :: "string \<Rightarrow> real \<Rightarrow> real \<Rightarrow> string \<Rightarrow> add_form" where
  "label_form n p r label =
     \<lparr>form_name = Some n, form_price = Number p, form_energy_rate = Number r,
      form_image = Some \<lparr>filename = ''label.png'', content = Scanned label\<rparr>\<rparr>"

definition plain_form :: "string \<Rightarrow> real \<Rightarrow> real \<Rightarrow> add_form" where
  "plain_form n p r =
     \<lparr>form_name = Some n, form_price = Number p, form_energy_rate = Number r,
      form_image = None\<rparr>"

definition demo_requests :: "(string \<times> request) list" where
  "demo_requests =
     [(''2026-01-01 10:00:00'', AddAppliance (label_form ''A'' 100 2 ''Energy: 100 kWh/annum'')),
      (''2026-01-01 10:05:00'', AddAppliance (label_form ''B'' 80 2 ''80 KWH'')),
      (''2026-01-01 10:10:00'', AddAppliance (plain_form ''C'' 100 2)),
      (''2026-01-01 10:15:00'', AddAppliance (label_form ''D'' 100 2 ''Power 0.5 kW''))]"

definition demo_store :: store where
  "demo_store = run (init_db None) demo_requests"

definition demo_row :: "int \<Rightarrow> string \<Rightarrow> real option \<Rightarrow> real \<Rightarrow> real \<Rightarrow> string \<Rightarrow> row" where
  "demo_row i n e p r t =
     \<lparr>rowid = i, name = Some n, energy_kwh = e, price = Some p, energy_rate = Some r,
      timestamp = Some t\<rparr>"

text \<open>Forty appliances added, without an image, to a fresh database.\<close>

definition forty_store :: store where
  "forty_store =
     run (init_db None)
       (replicate 40 (''2026-01-01 10:00:00'', AddAppliance (plain_form ''E'' 1 1)))"

section \<open>The matcher against the language of the pattern\<close>

text \<open>
  The backtracking matcher finds exactly the prefixes that belong to the language of the
  pattern: nothing it returns is outside the language, and no prefix in the language is
  missed. The order of the results is the engine's preference.
\<close>

lemma set_rep:
  "set (rep p n s) = {r. \<exists>w. s = w @ r \<and> list_all p w \<and> n \<le> length w}"
proof (induction s arbitrary: n)
  case Nil
  then show ?case by auto
next
  case (Cons c cs)
  show ?case
  proof (intro set_eqI iffI)
    fix r assume "r \<in> set (rep p n (c # cs))"
    then consider (a) "p c" "r \<in> set (rep p (n - 1) cs)" | (b) "n = 0" "r = c # cs"
      by (auto split: if_splits)
    then show "r \<in> {r. \<exists>w. c # cs = w @ r \<and> list_all p w \<and> n \<le> length w}"
    proof cases
      case a
      then obtain w where "cs = w @ r" "list_all p w" "n - 1 \<le> length w"
        using Cons.IH by auto
      then have "c # cs = (c # w) @ r \<and> list_all p (c # w) \<and> n \<le> length (c # w)"
        using a by auto
      then show ?thesis by blast
    next
      case b
      then have "c # cs = [] @ r \<and> list_all p [] \<and> n \<le> length ([]::string)" by simp
      then show ?thesis by blast
    qed
  next
    fix r assume "r \<in> {r. \<exists>w. c # cs = w @ r \<and> list_all p w \<and> n \<le> length w}"
    then obtain w where w: "c # cs = w @ r" "list_all p w" "n \<le> length w" by auto
    show "r \<in> set (rep p n (c # cs))"
    proof (cases w)
      case Nil
      then show ?thesis using w by auto
    next
      case (Cons x xs)
      then have "x = c" "cs = xs @ r" "p c" "list_all p xs" "n - 1 \<le> length xs"
        using w by auto
      then have "r \<in> set (rep p (n - 1) cs)" using Cons.IH by auto
      then show ?thesis using \<open>p c\<close> by auto
    qed
  qed
qed

lemma matches_sound:
  "(g, r) \<in> set (matches rx s) \<Longrightarrow> \<exists>w. s = w @ r \<and> w \<in> lang rx"
proof (induction rx arbitrary: s g r)
  case (Lit w)
  then show ?case by (auto split: if_splits) (metis append_take_drop_id)
next
  case (Rep p n)
  then show ?case using set_rep[of p n s] by auto
next
  case (Opt rx)
  from Opt.prems have "(g, r) \<in> set (matches rx s) \<or> r = s" by auto
  then show ?case
  proof
    assume "(g, r) \<in> set (matches rx s)"
    from Opt.IH[OF this] show ?thesis by auto
  next
    assume "r = s"
    then have "s = [] @ r \<and> [] \<in> lang (Opt rx)" by simp
    then show ?thesis by blast
  qed
next
  case (Seq a b)
  from Seq.prems obtain g1 s1 g2 where
    a: "(g1, s1) \<in> set (matches a s)" and b: "(g2, r) \<in> set (matches b s1)"
    by auto
  from Seq.IH(1)[OF a] obtain u where u: "s = u @ s1" "u \<in> lang a" by blast
  from Seq.IH(2)[OF b] obtain v where v: "s1 = v @ r" "v \<in> lang b" by blast
  have "s = (u @ v) @ r" using u v by simp
  moreover have "u @ v \<in> lang (Seq a b)" using u v by auto
  ultimately show ?case by blast
next
  case (Alt a b)
  from Alt.prems have "(g, r) \<in> set (matches a s) \<or> (g, r) \<in> set (matches b s)" by simp
  then show ?case
  proof
    assume "(g, r) \<in> set (matches a s)"
    from Alt.IH(1)[OF this] show ?thesis by auto
  next
    assume "(g, r) \<in> set (matches b s)"
    from Alt.IH(2)[OF this] show ?thesis by auto
  qed
next
  case (Group rx)
  then show ?case by auto
qed

lemma matches_complete:
  "w \<in> lang rx \<Longrightarrow> \<exists>g. (g, r) \<in> set (matches rx (w @ r))"
proof (induction rx arbitrary: w r)
  case (Lit x)
  then show ?case by auto
next
  case (Rep p n)
  then show ?case using set_rep[of p n "w @ r"] by auto
next
  case (Opt rx)
  then show ?case by auto
next
  case (Seq a b)
  then obtain u v where uv: "w = u @ v" "u \<in> lang a" "v \<in> lang b" by auto
  from Seq.IH(2)[OF uv(3)] obtain g2 where g2: "(g2, r) \<in> set (matches b (v @ r))" by blast
  from Seq.IH(1)[OF uv(2)] obtain g1 where g1: "(g1, v @ r) \<in> set (matches a (u @ v @ r))" by blast
  have "(g1 @ g2, r) \<in> set (matches (Seq a b) (w @ r))"
    using g1 g2 uv(1) by force
  then show ?case by blast
next
  case (Alt a b)
  then have "w \<in> lang a \<or> w \<in> lang b" by simp
  then show ?case
  proof
    assume "w \<in> lang a"
    from Alt.IH(1)[OF this] obtain g where "(g, r) \<in> set (matches a (w @ r))" by blast
    then have "(g, r) \<in> set (matches (Alt a b) (w @ r))" by simp
    then show ?thesis by blast
  next
    assume "w \<in> lang b"
    from Alt.IH(2)[OF this] obtain g where "(g, r) \<in> set (matches b (w @ r))" by blast
    then have "(g, r) \<in> set (matches (Alt a b) (w @ r))" by simp
    then show ?thesis by blast
  qed
next
  case (Group rx)
  then obtain g where "(g, r) \<in> set (matches rx (w @ r))" by auto
  then show ?case by force
qed

subsection \<open>The energy pattern\<close>

lemma lang_number_rx:
  "lang number_rx = {ds @ dot @ fs | ds dot fs. ds \<noteq> [] \<and> list_all is_digit ds \<and> (dot = [] \<or> dot = ''.'') \<and> list_all is_digit fs}"
  unfolding number_rx_def
  by (auto simp: Suc_le_eq)

lemma lang_unit_rx: "lang unit_rx = {''kwh'', ''kw''}"
  by (auto simp: unit_rx_def)

lemma matches_Group:
  assumes "(g, r) \<in> set (matches (Group rx) s)"
  shows "\<exists>w g'. g = w # g' \<and> (g', r) \<in> set (matches rx s) \<and> s = w @ r \<and> w \<in> lang rx"
proof -
  from assms obtain g' where g': "g = take (length s - length r) s # g'" "(g', r) \<in> set (matches rx s)"
    by auto
  from matches_sound[OF g'(2)] obtain w where w: "s = w @ r" "w \<in> lang rx" by blast
  then have "take (length s - length r) s = w" by simp
  with g' w show ?thesis by blast
qed

lemma matches_Seq:
  assumes "(g, r) \<in> set (matches (Seq a b) s)"
  shows "\<exists>g1 s1 g2. (g1, s1) \<in> set (matches a s) \<and> (g2, r) \<in> set (matches b s1) \<and> g = g1 @ g2"
  using assms by auto

lemma matches_number_rx_groups: "(g, r) \<in> set (matches number_rx s) \<Longrightarrow> g = []"
  by (auto simp: number_rx_def split: if_splits)

lemma matches_unit_rx_groups: "(g, r) \<in> set (matches unit_rx s) \<Longrightarrow> g = []"
  by (auto simp: unit_rx_def split: if_splits)

lemma matches_energy_rx:
  assumes "(g, r) \<in> set (matches energy_rx s)"
  shows "\<exists>num ws unit. g = [num, unit] \<and> s = num @ ws @ unit @ r \<and> num \<in> lang number_rx \<and>
           list_all is_space ws \<and> unit \<in> lang unit_rx"
proof -
  from assms obtain g1 s1 g2 where
    a: "(g1, s1) \<in> set (matches (Group number_rx) s)" and
    b: "(g2, r) \<in> set (matches (Seq (Rep is_space 0) (Group unit_rx)) s1)" and
    g: "g = g1 @ g2"
    unfolding energy_rx_def using matches_Seq by blast
  from matches_Group[OF a] obtain num g1' where
    num: "g1 = num # g1'" "(g1', s1) \<in> set (matches number_rx s)" "s = num @ s1" "num \<in> lang number_rx"
    by blast
  from b obtain g3 s2 g4 where
    c: "(g3, s2) \<in> set (matches (Rep is_space 0) s1)" and
    d: "(g4, r) \<in> set (matches (Group unit_rx) s2)" and
    g2: "g2 = g3 @ g4"
    using matches_Seq by blast
  from c have g3: "g3 = []" by auto
  from matches_sound[OF c] obtain ws where ws: "s1 = ws @ s2" "list_all is_space ws" by auto
  from matches_Group[OF d] obtain unit g4' where
    unit: "g4 = unit # g4'" "(g4', r) \<in> set (matches unit_rx s2)" "s2 = unit @ r" "unit \<in> lang unit_rx"
    by blast
  have "g = [num, unit]"
    using g g2 g3 num(1) unit(1) matches_number_rx_groups[OF num(2)] matches_unit_rx_groups[OF unit(2)]
    by simp
  moreover have "s = num @ ws @ unit @ r" using num(3) ws(1) unit(3) by simp
  ultimately show ?thesis using num(4) ws(2) unit(4) by blast
qed

lemma number_unit_at_iff_lang:
  "number_unit_at s \<longleftrightarrow> (\<exists>w r. s = w @ r \<and> w \<in> lang energy_rx)"
proof
  assume "number_unit_at s"
  then obtain ds dot fs ws u rest where
    h: "s = ds @ dot @ fs @ ws @ u @ rest" "ds \<noteq> []" "list_all is_digit ds" "dot = [] \<or> dot = ''.''"
       "list_all is_digit fs" "list_all is_space ws" "u = ''kwh'' \<or> u = ''kw''"
    unfolding number_unit_at_def by blast
  have n: "ds @ dot @ fs \<in> lang number_rx" using h(2-5) unfolding lang_number_rx by blast
  have u: "u \<in> lang unit_rx" using h(7) by (auto simp: lang_unit_rx)
  have "ws \<in> lang (Rep is_space 0)" using h(6) by simp
  with u have "ws @ u \<in> lang (Seq (Rep is_space 0) (Group unit_rx))" by auto
  with n have "(ds @ dot @ fs) @ (ws @ u) \<in> lang energy_rx"
    unfolding energy_rx_def by (simp del: append_assoc) blast
  moreover have "s = ((ds @ dot @ fs) @ (ws @ u)) @ rest" using h(1) by simp
  ultimately show "\<exists>w r. s = w @ r \<and> w \<in> lang energy_rx" by blast
next
  assume "\<exists>w r. s = w @ r \<and> w \<in> lang energy_rx"
  then obtain w r where w: "s = w @ r" "w \<in> lang energy_rx" by blast
  from w(2) obtain n v where nv: "w = n @ v" "n \<in> lang number_rx" "v \<in> lang (Seq (Rep is_space 0) (Group unit_rx))"
    unfolding energy_rx_def by auto
  from nv(3) obtain ws u where wu: "v = ws @ u" "list_all is_space ws" "u \<in> lang unit_rx" by auto
  from nv(2) obtain ds dot fs where d: "n = ds @ dot @ fs" "ds \<noteq> []" "list_all is_digit ds"
      "dot = [] \<or> dot = ''.''" "list_all is_digit fs"
    unfolding lang_number_rx by blast
  have "s = ds @ dot @ fs @ ws @ u @ r" using w(1) nv(1) wu(1) d(1) by simp
  moreover have "u = ''kwh'' \<or> u = ''kw''" using wu(3) by (simp add: lang_unit_rx)
  ultimately show "number_unit_at s"
    unfolding number_unit_at_def using d(2-5) wu(2) by blast
qed

lemma number_unit_at_iff_matches: "number_unit_at s \<longleftrightarrow> matches energy_rx s \<noteq> []"
proof
  assume "number_unit_at s"
  then obtain w r where "s = w @ r" "w \<in> lang energy_rx"
    unfolding number_unit_at_iff_lang by blast
  with matches_complete[of w energy_rx r] show "matches energy_rx s \<noteq> []" by auto
next
  assume "matches energy_rx s \<noteq> []"
  then obtain g r where "(g, r) \<in> set (matches energy_rx s)"
    by (cases "matches energy_rx s") auto
  from matches_sound[OF this] show "number_unit_at s"
    unfolding number_unit_at_iff_lang by blast
qed

subsection \<open>Searching from the left\<close>

lemma re_search_None:
  "re_search rx s = None \<longleftrightarrow> (\<forall>i\<le>length s. matches rx (drop i s) = [])"
proof (induction s)
  case Nil
  then show ?case by (auto split: list.splits)
next
  case (Cons c cs)
  show ?case
  proof (cases "matches rx (c # cs)")
    case Nil
    have "(\<forall>i\<le>length (c # cs). matches rx (drop i (c # cs)) = []) \<longleftrightarrow>
          (\<forall>i\<le>length cs. matches rx (drop i cs) = [])"
    proof
      assume h: "\<forall>i\<le>length (c # cs). matches rx (drop i (c # cs)) = []"
      show "\<forall>i\<le>length cs. matches rx (drop i cs) = []"
      proof (intro allI impI)
        fix i assume "i \<le> length cs"
        then have "matches rx (drop (Suc i) (c # cs)) = []" using h by (metis Suc_le_mono length_Cons)
        then show "matches rx (drop i cs) = []" by simp
      qed
    next
      assume h: "\<forall>i\<le>length cs. matches rx (drop i cs) = []"
      show "\<forall>i\<le>length (c # cs). matches rx (drop i (c # cs)) = []"
      proof (intro allI impI)
        fix i assume i: "i \<le> length (c # cs)"
        show "matches rx (drop i (c # cs)) = []"
        proof (cases i)
          case 0
          then show ?thesis using Nil by simp
        next
          case (Suc j)
          then show ?thesis using h i by simp
        qed
      qed
    qed
    then show ?thesis using Nil Cons.IH by simp
  next
    case (Cons m ms)
    then have "re_search rx (c # cs) \<noteq> None" by (auto split: prod.splits)
    moreover have "\<not> (\<forall>i\<le>length (c # cs). matches rx (drop i (c # cs)) = [])"
      using Cons by (metis drop0 le0 list.distinct(1))
    ultimately show ?thesis by blast
  qed
qed

lemma re_search_Some:
  assumes "re_search rx s = Some (i, g)"
  shows "i \<le> length s \<and> (\<exists>r ms. matches rx (drop i s) = (g, r) # ms) \<and>
         (\<forall>j<i. matches rx (drop j s) = [])"
  using assms
proof (induction s arbitrary: i)
  case Nil
  then show ?case by (auto split: list.splits)
next
  case (Cons c cs)
  show ?case
  proof (cases "matches rx (c # cs)")
    case Nil
    with Cons.prems obtain k where k: "re_search rx cs = Some (k, g)" "i = Suc k"
      by auto
    from Cons.IH[OF k(1)] have ih: "k \<le> length cs" "\<exists>r ms. matches rx (drop k cs) = (g, r) # ms"
      "\<forall>j<k. matches rx (drop j cs) = []" by auto
    have "\<forall>j<i. matches rx (drop j (c # cs)) = []"
    proof (intro allI impI)
      fix j assume "j < i"
      then show "matches rx (drop j (c # cs)) = []"
        using Nil ih(3) k(2) by (cases j) auto
    qed
    then show ?thesis using ih(1,2) k(2) by simp
  next
    case (Cons m ms)
    with Cons.prems show ?thesis by (auto split: prod.splits)
  qed
qed

section \<open>OCR extraction and unit normalisation\<close>

lemma not_digit_dot: "\<not> is_digit CHR ''.''"
  by (simp add: is_digit_def)

lemma py_float_number:
  assumes "n \<in> lang number_rx"
  shows "\<exists>v. py_float n = Inr v \<and> 0 \<le> v"
proof -
  from assms obtain ds dot fs where d: "n = ds @ dot @ fs" "ds \<noteq> []" "list_all is_digit ds"
      "dot = [] \<or> dot = ''.''" "list_all is_digit fs"
    unfolding lang_number_rx by blast
  from d(4) show ?thesis
  proof
    assume "dot = []"
    then have "list_all is_digit n" "n \<noteq> []" using d by auto
    then have tw: "takeWhile is_digit n = n" and dw: "dropWhile is_digit n = []"
      by (auto simp: list_all_iff)
    have "py_float n = Inr (real (digits_value n))"
      using \<open>n \<noteq> []\<close> by (simp add: py_float_def tw dw)
    then show ?thesis by simp
  next
    assume "dot = ''.''"
    then have n: "n = ds @ CHR ''.'' # fs" using d(1) by simp
    have ds: "\<forall>x\<in>set ds. is_digit x" using d(3) by (simp add: list_all_iff)
    have t: "takeWhile is_digit n = ds"
      unfolding n using not_digit_dot ds by (simp add: takeWhile_tail)
    have "dropWhile is_digit ds = []" using ds by simp
    then have dr: "dropWhile is_digit n = CHR ''.'' # fs"
      unfolding n using not_digit_dot ds by (simp add: dropWhile_append)
    have "py_float n = Inr (real (digits_value ds) + real (digits_value fs) / 10 ^ length fs)"
      using d(2,5) by (simp add: py_float_def t dr)
    then show ?thesis by simp
  qed
qed

lemma unit_normalizer_matched:
  assumes "re_search energy_rx (lower text) = Some (i, g)"
  shows "\<exists>num ws unit rest v.
           g = [num, unit] \<and> drop i (lower text) = num @ ws @ unit @ rest \<and>
           list_all is_space ws \<and> (unit = ''kwh'' \<or> unit = ''kw'') \<and>
           py_float num = Inr v \<and> 0 \<le> v \<and>
           unit_normalizer text = Inr (Some (if unit = ''kw'' then v * 24 * 365 else v), text)"
proof -
  from re_search_Some[OF assms] obtain r ms where
    m: "matches energy_rx (drop i (lower text)) = (g, r) # ms" by blast
  then have "(g, r) \<in> set (matches energy_rx (drop i (lower text)))" by simp
  from matches_energy_rx[OF this] obtain num ws unit where
    g: "g = [num, unit]" "drop i (lower text) = num @ ws @ unit @ r" "num \<in> lang number_rx"
       "list_all is_space ws" "unit \<in> lang unit_rx" by blast
  from py_float_number[OF g(3)] obtain v where v: "py_float num = Inr v" "0 \<le> v" by blast
  have "unit_normalizer text = Inr (Some (if unit = ''kw'' then v * 24 * 365 else v), text)"
    using assms g(1) v(1) by (simp add: unit_normalizer_def group_def)
  moreover have "unit = ''kwh'' \<or> unit = ''kw''" using g(5) by (simp add: lang_unit_rx)
  ultimately show ?thesis using g(1,2,4) v by blast
qed

lemma pattern_occurs_iff_search:
  "pattern_occurs s \<longleftrightarrow> re_search energy_rx s \<noteq> None"
  unfolding pattern_occurs_def re_search_None number_unit_at_iff_matches by blast

lemma unit_normalizer_result:
  "\<exists>e. unit_normalizer text = Inr (e, text) \<and> (\<forall>v. e = Some v \<longrightarrow> 0 \<le> v)"
proof (cases "re_search energy_rx (lower text)")
  case None
  then show ?thesis by (simp add: unit_normalizer_def)
next
  case (Some m)
  obtain i g where "m = (i, g)" by (cases m)
  with Some have "re_search energy_rx (lower text) = Some (i, g)" by simp
  from unit_normalizer_matched[OF this] show ?thesis by auto
qed



text \<open>
  Claim C4. When no number followed by a unit occurs in the lower-cased text, the
  normaliser returns normally, with an absent energy value and the raw text as given; it
  raises nothing.
\<close>

theorem unit_normalizer_no_match:
  assumes "\<not> pattern_occurs (lower text)"
  shows "unit_normalizer text = Inr (None, text)"
proof -
  from assms have "re_search energy_rx (lower text) = None"
    unfolding pattern_occurs_iff_search by blast
  then show ?thesis by (simp add: unit_normalizer_def)
qed

theorem unit_normalizer_no_match_witness:
  "\<not> pattern_occurs (lower ''Energy class A+++ 3..kw'') \<and>
   unit_normalizer ''Energy class A+++ 3..kw'' = Inr (None, ''Energy class A+++ 3..kw'')"
proof -
  have "re_search energy_rx (lower ''Energy class A+++ 3..kw'') = None" by code_simp
  then have h: "\<not> pattern_occurs (lower ''Energy class A+++ 3..kw'')"
    unfolding pattern_occurs_iff_search by simp
  from unit_normalizer_no_match[OF h] h show ?thesis by blast
qed

section \<open>The store\<close>

subsection \<open>What every reachable store satisfies\<close>

lemma store_inv_init: "store_inv (init_db None)"
  by (simp add: store_inv_def init_db_def)

lemma row_ok_mono: "row_ok m r \<Longrightarrow> m \<le> m' \<Longrightarrow> row_ok m' r"
  by (auto simp: row_ok_def)

lemma insert_appliance_inv:
  assumes "store_inv s" and "insert_appliance now s n e p r = Inr s'"
    and "case e of None \<Rightarrow> True | Some v \<Rightarrow> 0 \<le> v"
  shows "store_inv s'"
proof -
  from assms(2) have lt: "seq s < 2 ^ 63 - 1"
    and s': "s' = s\<lparr>rows := rows s @
                       [\<lparr>rowid = seq s + 1, name = n, energy_kwh = e, price = Some p,
                         energy_rate = Some r, timestamp = Some now\<rparr>],
                     seq := seq s + 1\<rparr>"
    by (auto simp: insert_appliance_def Let_def split: if_splits)
  from assms(1) have inv: "0 \<le> seq s" "distinct (map rowid (rows s))"
    "list_all (row_ok (seq s)) (rows s)"
    by (auto simp: store_inv_def)
  have old: "list_all (row_ok (seq s + 1)) (rows s)"
    using inv(3) by (auto simp: list_all_iff intro: row_ok_mono)
  have fresh: "seq s + 1 \<notin> rowid ` set (rows s)"
    using inv(3) by (auto simp: list_all_iff row_ok_def)
  have new: "row_ok (seq s + 1) \<lparr>rowid = seq s + 1, name = n, energy_kwh = e, price = Some p,
                         energy_rate = Some r, timestamp = Some now\<rparr>"
    using inv(1) assms(3) by (simp add: row_ok_def)
  show ?thesis
    unfolding s' store_inv_def using lt inv(1,2) old fresh new by simp
qed

lemma read_image_nonneg:
  assumes "read_image img = Inr e"
  shows "case e of None \<Rightarrow> True | Some v \<Rightarrow> 0 \<le> v"
proof (cases img)
  case None
  with assms show ?thesis by (simp add: read_image_def)
next
  case (Some up)
  show ?thesis
  proof (cases "filename up \<noteq> []")
    case False
    with Some assms show ?thesis by (simp add: read_image_def)
  next
    case True
    show ?thesis
    proof (cases "content up")
      case Unreadable
      with True Some assms show ?thesis
        by (simp add: read_image_def extract_energy_from_image_def)
    next
      case (Scanned ocr)
      from unit_normalizer_result[of ocr] obtain e' where
        e': "unit_normalizer ocr = Inr (e', ocr)" "\<forall>v. e' = Some v \<longrightarrow> 0 \<le> v" by blast
      with True Some Scanned assms have "e = e'"
        by (simp add: read_image_def extract_energy_from_image_def)
      with e'(2) show ?thesis by (cases e) auto
    qed
  qed
qed

lemma add_appliance_Inr:
  assumes "add_appliance now s form = Inr (s', resp)"
  shows "\<exists>p r e. form_float (form_price form) = Inr p \<and>
           form_float (form_energy_rate form) = Inr r \<and>
           read_image (form_image form) = Inr e \<and>
           insert_appliance now s (form_name form) e p r = Inr s' \<and>
           resp = Saved (form_name form) e"
  using assms by (auto simp: add_appliance_def split: sum.splits)

lemma add_appliance_inv:
  assumes "store_inv s" and "add_appliance now s form = Inr (s', resp)"
  shows "store_inv s'"
proof -
  from add_appliance_Inr[OF assms(2)] obtain p r e where
    h: "read_image (form_image form) = Inr e"
       "insert_appliance now s (form_name form) e p r = Inr s'" by blast
  from insert_appliance_inv[OF assms(1) h(2) read_image_nonneg[OF h(1)]] show ?thesis .
qed

lemma handle_inv: "store_inv s \<Longrightarrow> store_inv (fst (handle now s req))"
  by (cases req) (auto simp: handle_def split: sum.splits dest: add_appliance_inv)

lemma reachable_inv: "reachable s \<Longrightarrow> store_inv s"
  by (induction rule: reachable.induct) (auto intro: store_inv_init handle_inv)

lemma reachable_run: "reachable s \<Longrightarrow> reachable (run s reqs)"
proof (induction reqs arbitrary: s)
  case Nil
  then show ?case by simp
next
  case (Cons a reqs)
  obtain now req where a: "a = (now, req)" by (cases a)
  have "reachable (fst (handle now s req))" using Cons.prems by (rule reachable.step)
  from Cons.IH[OF this] show ?case using a by simp
qed



subsection \<open>Looking rows up by key\<close>

lemma filter_key_unique:
  "distinct (map f xs) \<Longrightarrow> x \<in> set xs \<Longrightarrow> filter (\<lambda>y. f y = f x) xs = [x]"
proof (induction xs)
  case Nil
  then show ?case by simp
next
  case (Cons a xs)
  show ?case
  proof (cases "x = a")
    case True
    have "f a \<notin> f ` set xs" using Cons.prems(1) by simp
    then have "\<forall>y\<in>set xs. f y \<noteq> f a" by (metis imageI)
    then have "filter (\<lambda>y. f y = f a) xs = []" by (simp add: filter_empty_conv)
    with True show ?thesis by simp
  next
    case False
    then have x: "x \<in> set xs" using Cons.prems(2) by simp
    have "f a \<notin> f ` set xs" using Cons.prems(1) by simp
    with x have "f a \<noteq> f x" by (metis imageI)
    moreover have "distinct (map f xs)" using Cons.prems(1) by simp
    then have "filter (\<lambda>y. f y = f x) xs = [x]" using x by (rule Cons.IH)
    ultimately show ?thesis by simp
  qed
qed

lemma stored_key_in_range:
  assumes "store_inv s" and "r \<in> set (rows s)"
  shows "sqlite_int (rowid r)"
proof -
  from assms have "row_ok (seq s) r" "seq s \<le> 2 ^ 63 - 1"
    by (auto simp: store_inv_def list_all_iff)
  then show ?thesis by (auto simp: row_ok_def sqlite_int_def)
qed



lemma compare_two_rows:
  assumes "select_by_ids s i j = Inr [a1, a2]"
  shows "compare s (Some [i, j]) =
           (case less_than (total_cost a1) (total_cost a2) of
              Inl e \<Rightarrow> Inl e
            | Inr lt \<Rightarrow>
                Inr (Comparison
                  \<lparr>side_name = name a1, annual_cost = total_cost a1, carbon = carbon_of (total_cost a1)\<rparr>
                  \<lparr>side_name = name a2, annual_cost = total_cost a2, carbon = carbon_of (total_cost a2)\<rparr>
                  (name (if lt then a1 else a2))))"
  using assms by (simp add: compare_def Let_def split: sum.splits)

lemma compare_not_two_rows:
  assumes "select_by_ids s i j = Inr sel" and "length sel \<noteq> 2"
  shows "compare s (Some [i, j]) = Inr (ErrorJson 404 ''Invalid appliance IDs'')"
proof -
  have "\<not> (\<exists>a1 a2. sel = [a1, a2])" using assms(2) by auto
  then show ?thesis using assms(1)
    by (auto simp: compare_def split: list.splits)
qed


section \<open>Adding and listing\<close>

lemma demo_store_rows:
  "demo_store =
     \<lparr>rows = [demo_row 1 ''A'' (Some 100) 100 2 ''2026-01-01 10:00:00'',
              demo_row 2 ''B'' (Some 80) 80 2 ''2026-01-01 10:05:00'',
              demo_row 3 ''C'' None 100 2 ''2026-01-01 10:10:00'',
              demo_row 4 ''D'' (Some 4380) 100 2 ''2026-01-01 10:15:00''],
      seq = 4\<rparr>"
  by code_simp

lemma reachable_demo_store: "reachable demo_store"
  unfolding demo_store_def by (rule reachable_run) (rule reachable.fresh)




text \<open>
  Claim C7. In every store the server can reach from a fresh database, the energy figure
  of each row is NULL or a real that is not negative; and whatever the OCR stage returns
  for an image is absent or not negative.
\<close>

theorem energy_kwh_never_negative:
  "(reachable s \<longrightarrow> r \<in> set (rows s) \<longrightarrow>
      energy_kwh r = None \<or> (\<exists>v. energy_kwh r = Some v \<and> 0 \<le> v)) \<and>
   (extract_energy_from_image img = Inr (e, raw) \<longrightarrow>
      e = None \<or> (\<exists>v. e = Some v \<and> 0 \<le> v))"
proof (intro conjI impI)
  assume "reachable s" and r: "r \<in> set (rows s)"
  then have "store_inv s" by (simp add: reachable_inv)
  with r have "row_ok (seq s) r" by (auto simp: store_inv_def list_all_iff)
  then show "energy_kwh r = None \<or> (\<exists>v. energy_kwh r = Some v \<and> 0 \<le> v)"
    by (cases "energy_kwh r") (auto simp: row_ok_def)
next
  assume a: "extract_energy_from_image img = Inr (e, raw)"
  show "e = None \<or> (\<exists>v. e = Some v \<and> 0 \<le> v)"
  proof (cases img)
    case Unreadable
    with a show ?thesis by (simp add: extract_energy_from_image_def)
  next
    case (Scanned ocr)
    from unit_normalizer_result[of ocr] obtain e' where
      "unit_normalizer ocr = Inr (e', ocr)" "\<forall>v. e' = Some v \<longrightarrow> 0 \<le> v" by blast
    with a Scanned show ?thesis by (cases e) (auto simp: extract_energy_from_image_def)
  qed
qed

theorem energy_kwh_never_negative_witness:
  "reachable demo_store \<and>
   demo_row 4 ''D'' (Some 4380) 100 2 ''2026-01-01 10:15:00'' \<in> set (rows demo_store) \<and>
   (\<exists>v. energy_kwh (demo_row 4 ''D'' (Some 4380) 100 2 ''2026-01-01 10:15:00'') = Some v \<and> 0 \<le> v) \<and>
   extract_energy_from_image (Scanned ''Power 0.5 kW'') = Inr (Some 4380, ''Power 0.5 kW'') \<and>
   (\<exists>v. Some (4380::real) = Some v \<and> 0 \<le> v)"
proof -
  let ?r = "demo_row 4 ''D'' (Some 4380) 100 2 ''2026-01-01 10:15:00''"
  have m: "?r \<in> set (rows demo_store)" by (simp add: demo_store_rows)
  have x: "extract_energy_from_image (Scanned ''Power 0.5 kW'') = Inr (Some 4380, ''Power 0.5 kW'')"
    by code_simp
  have ne: "energy_kwh ?r \<noteq> None" by (simp add: demo_row_def)
  from energy_kwh_never_negative[of demo_store ?r "Scanned ''Power 0.5 kW''" "Some 4380" "''Power 0.5 kW''"]
    reachable_demo_store m x ne
  show ?thesis by simp
qed

section \<open>Comparing two appliances\<close>

text \<open>
  Claim C10. When both identifiers of a compare request are the key of one stored row, the
  query returns that row once, the handler does not find two rows, and the answer is the
  404 error, although the identifier resolves.
\<close>

theorem compare_same_id_twice:
  assumes "reachable s" and "r \<in> set (rows s)"
  shows "select_by_ids s (rowid r) (rowid r) = Inr [r] \<and>
         compare s (Some [rowid r, rowid r]) = Inr (ErrorJson 404 ''Invalid appliance IDs'') \<and>
         status (snd (handle now s (Compare (Some [rowid r, rowid r])))) = 404"
proof -
  from assms(1) have inv: "store_inv s" by (rule reachable_inv)
  then have d: "distinct (map rowid (rows s))" by (simp add: store_inv_def)
  have rng: "sqlite_int (rowid r)" using inv assms(2) by (rule stored_key_in_range)
  have "filter (\<lambda>x. rowid x = rowid r) (rows s) = [r]"
    using d assms(2) by (rule filter_key_unique)
  with rng have sel: "select_by_ids s (rowid r) (rowid r) = Inr [r]"
    by (simp add: select_by_ids_def)
  have c: "compare s (Some [rowid r, rowid r]) = Inr (ErrorJson 404 ''Invalid appliance IDs'')"
    using sel by (rule compare_not_two_rows) simp
  then have "status (snd (handle now s (Compare (Some [rowid r, rowid r])))) = 404"
    by (simp add: handle_def status_def)
  with sel c show ?thesis by blast
qed

theorem compare_same_id_twice_witness:
  "reachable demo_store \<and>
   demo_row 2 ''B'' (Some 80) 80 2 ''2026-01-01 10:05:00'' \<in> set (rows demo_store) \<and>
   compare demo_store (Some [2, 2]) = Inr (ErrorJson 404 ''Invalid appliance IDs'')"
proof -
  let ?r = "demo_row 2 ''B'' (Some 80) 80 2 ''2026-01-01 10:05:00''"
  have m: "?r \<in> set (rows demo_store)" by (simp add: demo_store_rows)
  have k: "rowid ?r = 2" by (simp add: demo_row_def)
  from compare_same_id_twice[OF reachable_demo_store m, of "''now''"] k
  have "compare demo_store (Some [2, 2]) = Inr (ErrorJson 404 ''Invalid appliance IDs'')"
    by simp
  with reachable_demo_store m show ?thesis by blast
qed

text \<open>
  Claim C9. When the query returns two rows and the annual cost of at least one of them
  is absent, the comparison of the two costs raises \<open>TypeError\<close>: the request ends in
  a status 500 answer, not in a reply, and the store is the one it started from.
\<close>

theorem compare_absent_cost_raises:
  assumes "select_by_ids s i j = Inr [a1, a2]"
    and "total_cost a1 = None \<or> total_cost a2 = None"
  shows "handle now s (Compare (Some [i, j])) = (s, Inl TypeError) \<and>
         status (snd (handle now s (Compare (Some [i, j])))) = 500"
proof -
  from assms(2) have "less_than (total_cost a1) (total_cost a2) = Inl TypeError"
    by (auto simp: less_than_def split: option.splits)
  with compare_two_rows[OF assms(1)] have "compare s (Some [i, j]) = Inl TypeError" by simp
  then show ?thesis by (simp add: handle_def status_def)
qed

theorem compare_absent_cost_raises_witness:
  "select_by_ids demo_store 3 1 =
     Inr [demo_row 1 ''A'' (Some 100) 100 2 ''2026-01-01 10:00:00'',
          demo_row 3 ''C'' None 100 2 ''2026-01-01 10:10:00''] \<and>
   total_cost (demo_row 3 ''C'' None 100 2 ''2026-01-01 10:10:00'') = None \<and>
   handle ''2026-01-02 09:00:00'' demo_store (Compare (Some [3, 1])) = (demo_store, Inl TypeError)"
proof -
  have sel: "select_by_ids demo_store 3 1 =
     Inr [demo_row 1 ''A'' (Some 100) 100 2 ''2026-01-01 10:00:00'',
          demo_row 3 ''C'' None 100 2 ''2026-01-01 10:10:00'']"
    by (simp add: demo_store_rows select_by_ids_def sqlite_int_def demo_row_def)
  have c: "total_cost (demo_row 3 ''C'' None 100 2 ''2026-01-01 10:10:00'') = None"
    by (simp add: total_cost_def demo_row_def)
  from compare_absent_cost_raises[OF sel disjI2[OF c]] sel c show ?thesis by blast
qed

text \<open>
  Claim C3. When the query returns two rows and both annual costs are present, the reply
  recommends the first row if its cost is strictly lower and the second row if the
  second's is; with equal costs it names the second.
\<close>

theorem compare_recommends_lower_cost:
  assumes "select_by_ids s i j = Inr [a1, a2]"
    and "total_cost a1 = Some c1" and "total_cost a2 = Some c2"
  shows "\<exists>A B rec.
           compare s (Some [i, j]) = Inr (Comparison A B rec) \<and>
           side_name A = name a1 \<and> annual_cost A = Some c1 \<and>
           side_name B = name a2 \<and> annual_cost B = Some c2 \<and>
           (c1 < c2 \<longrightarrow> rec = name a1) \<and>
           (c2 < c1 \<longrightarrow> rec = name a2) \<and>
           (c1 = c2 \<longrightarrow> rec = name a2)"
proof -
  have "less_than (total_cost a1) (total_cost a2) = Inr (c1 < c2)"
    using assms(2,3) by (simp add: less_than_def)
  with compare_two_rows[OF assms(1)] assms(2,3)
  have "compare s (Some [i, j]) =
          Inr (Comparison
            \<lparr>side_name = name a1, annual_cost = Some c1, carbon = carbon_of (Some c1)\<rparr>
            \<lparr>side_name = name a2, annual_cost = Some c2, carbon = carbon_of (Some c2)\<rparr>
            (name (if c1 < c2 then a1 else a2)))"
    by simp
  then show ?thesis by auto
qed

theorem compare_recommends_lower_cost_witness:
  "select_by_ids demo_store 1 2 =
     Inr [demo_row 1 ''A'' (Some 100) 100 2 ''2026-01-01 10:00:00'',
          demo_row 2 ''B'' (Some 80) 80 2 ''2026-01-01 10:05:00''] \<and>
   total_cost (demo_row 1 ''A'' (Some 100) 100 2 ''2026-01-01 10:00:00'') = Some 200 \<and>
   total_cost (demo_row 2 ''B'' (Some 80) 80 2 ''2026-01-01 10:05:00'') = Some 160 \<and>
   (\<exists>A B. compare demo_store (Some [1, 2]) = Inr (Comparison A B (Some ''B'')))"
proof -
  let ?a = "demo_row 1 ''A'' (Some 100) 100 2 ''2026-01-01 10:00:00''"
  let ?b = "demo_row 2 ''B'' (Some 80) 80 2 ''2026-01-01 10:05:00''"
  have sel: "select_by_ids demo_store 1 2 = Inr [?a, ?b]"
    by (simp add: demo_store_rows select_by_ids_def sqlite_int_def demo_row_def)
  have ca: "total_cost ?a = Some 200" by (simp add: total_cost_def demo_row_def)
  have cb: "total_cost ?b = Some 160" by (simp add: total_cost_def demo_row_def)
  have nb: "name ?b = Some ''B''" by (simp add: demo_row_def)
  from compare_recommends_lower_cost[OF sel ca cb] nb
  have "\<exists>A B. compare demo_store (Some [1, 2]) = Inr (Comparison A B (Some ''B''))"
    by auto
  with sel ca cb show ?thesis by blast
qed




section \<open>Annual cost and carbon estimate\<close>





section \<open>The PDF export\<close>

lemma draw_rows_no_break:
  "100 \<le> y - 20 * int (length data) \<Longrightarrow>
   draw_rows y pdf data =
     (y - 20 * int (length data), pdf\<lparr>code := code pdf @ lines_from y (font pdf) data\<rparr>)"
proof (induction data arbitrary: y pdf)
  case Nil
  then show ?case by simp
next
  case (Cons row data)
  obtain n e p r where row: "row = (n, e, p, r)" by (cases row) auto
  from Cons.prems have y: "\<not> y - 20 < 100" and ih: "100 \<le> (y - 20) - 20 * int (length data)"
    by simp_all
  show ?case
    unfolding row using y Cons.IH[OF ih, of "drawString 40 y (Line n e p r) pdf"]
    by (simp add: drawString_def Let_def)
qed

lemma draw_rows_append:
  "draw_rows y pdf (xs @ ys) = (case draw_rows y pdf xs of (y', pdf') \<Rightarrow> draw_rows y' pdf' ys)"
proof (induction xs arbitrary: y pdf)
  case Nil
  then show ?case by simp
next
  case (Cons row xs)
  obtain n e p r where row: "row = (n, e, p, r)" by (cases row) auto
  show ?case unfolding row by (simp add: Let_def Cons.IH)
qed

lemma draw_rows_break:
  "100 \<le> y \<Longrightarrow> y < 120 \<Longrightarrow>
   draw_rows y pdf [(n, e, p, r)] = (800, showPage (drawString 40 y (Line n e p r) pdf))"
  by (simp add: Let_def)

lemma lines_from_append:
  "lines_from y f (xs @ ys) = lines_from y f xs @ lines_from (y - 20 * int (length xs)) f ys"
proof (induction xs arbitrary: y)
  case Nil
  then show ?case by simp
next
  case (Cons row xs)
  obtain n e p r where row: "row = (n, e, p, r)" by (cases row) auto
  show ?case unfolding row by (simp add: Cons.IH algebra_simps)
qed

lemma length_lines_from: "length (lines_from y f data) = length data"
  by (induction y f data rule: lines_from.induct) auto

lemma draw_rows_first_page:
  assumes "length data = 34"
  shows "draw_rows 770 pdf data =
           (800, showPage (pdf\<lparr>code := code pdf @ lines_from 770 (font pdf) data\<rparr>))"
proof -
  from assms have ne: "data \<noteq> []" by auto
  define xs where "xs = butlast data"
  obtain n e p r where l: "last data = (n, e, p, r)" by (cases "last data") auto
  have d: "data = xs @ [(n, e, p, r)]" using ne l xs_def by (metis append_butlast_last_id)
  have lx: "length xs = 33" using assms xs_def by simp
  have a: "draw_rows 770 pdf xs = (110, pdf\<lparr>code := code pdf @ lines_from 770 (font pdf) xs\<rparr>)"
    using draw_rows_no_break[of 770 xs pdf] lx by simp
  have b: "draw_rows 110 (pdf\<lparr>code := code pdf @ lines_from 770 (font pdf) xs\<rparr>) [(n, e, p, r)] =
             (800, showPage (drawString 40 110 (Line n e p r)
                      (pdf\<lparr>code := code pdf @ lines_from 770 (font pdf) xs\<rparr>)))"
    by (rule draw_rows_break) simp_all
  have c: "lines_from 770 (font pdf) data =
             lines_from 770 (font pdf) xs @ [DrawString 40 110 (font pdf) (Line n e p r)]"
    unfolding d by (simp add: lines_from_append lx)
  show ?thesis
    unfolding c unfolding d draw_rows_append a
    by (simp add: b drawString_def)
qed

lemma export_pdf_unfold:
  "export_pdf s =
     PdfFile (save (snd (draw_rows 770
        \<lparr>pages = [], code = [DrawString 200 800 (''Helvetica-Bold'', 18) Title],
          font = (''Helvetica'', 12)\<rparr> (selected s))))"
  by (simp add: export_pdf_def Canvas_def setFont_def drawString_def case_prod_beta)

lemma export_pdf_short:
  assumes "length (rows s) \<le> 33"
  shows "export_pdf s =
           PdfFile [DrawString 200 800 (''Helvetica-Bold'', 18) Title #
                    lines_from 770 (''Helvetica'', 12) (selected s)]"
proof -
  have "100 \<le> 770 - 20 * int (length (selected s))" using assms by (simp add: selected_def)
  from draw_rows_no_break[OF this] show ?thesis
    unfolding export_pdf_unfold by (simp add: save_def showPage_def)
qed

lemma export_pdf_long:
  assumes "34 \<le> length (rows s)" and "length (rows s) \<le> 69"
  shows "export_pdf s =
           PdfFile (
             (DrawString 200 800 (''Helvetica-Bold'', 18) Title #
                lines_from 770 (''Helvetica'', 12) (take 34 (selected s))) #
             (if length (rows s) = 34 then []
              else [lines_from 800 (''Helvetica'', 12) (drop 34 (selected s))]))"
proof -
  define data where "data = selected s"
  define pdf0 where "pdf0 = \<lparr>pages = [], code = [DrawString 200 800 (''Helvetica-Bold'', 18) Title],
                 font = (''Helvetica'', 12)\<rparr>"
  define p1 where "p1 = DrawString 200 800 (''Helvetica-Bold'', 18) Title #
                lines_from 770 (''Helvetica'', 12) (take 34 data)"
  define pdf1 where "pdf1 = \<lparr>pages = [p1], code = [], font = (''Helvetica'', 12)\<rparr>"
  define p2 where "p2 = lines_from 800 (''Helvetica'', 12) (drop 34 data)"
  have len: "length data = length (rows s)" by (simp add: data_def selected_def)
  have l34: "length (take 34 data) = 34" using assms(1) len by simp
  have first: "draw_rows 770 pdf0 (take 34 data) = (800, pdf1)"
    using draw_rows_first_page[OF l34, of pdf0]
    by (simp add: showPage_def pdf0_def pdf1_def p1_def)
  have "100 \<le> 800 - 20 * int (length (drop 34 data))" using assms(2) len by simp
  from draw_rows_no_break[OF this, of pdf1]
  have rest: "snd (draw_rows 800 pdf1 (drop 34 data)) =
           \<lparr>pages = [p1], code = p2, font = (''Helvetica'', 12)\<rparr>"
    by (simp add: pdf1_def p2_def)
  have "draw_rows 770 pdf0 (take 34 data @ drop 34 data) = draw_rows 800 pdf1 (drop 34 data)"
    unfolding draw_rows_append first by simp
  then have all: "snd (draw_rows 770 pdf0 data) =
           \<lparr>pages = [p1], code = p2, font = (''Helvetica'', 12)\<rparr>"
    using rest by simp
  have "length p2 = length (rows s) - 34"
    unfolding p2_def length_lines_from using len by simp
  then have e: "p2 = [] \<longleftrightarrow> length (rows s) = 34" using assms(1) by auto
  have "save (snd (draw_rows 770 pdf0 data)) = p1 # (if length (rows s) = 34 then [] else [p2])"
    unfolding all using e by (simp add: save_def showPage_def)
  then show ?thesis
    unfolding export_pdf_unfold by (simp add: data_def pdf0_def p1_def p2_def)
qed

text \<open>
  Claim C8. With no row stored the document is one page that shows the title and nothing
  else. With 40 rows it has two pages: the title and the first 34 records, a line every
  20 units down from 770 to 110, on the first; the remaining 6, from 800 down, on the
  second. The page is turned after the record that takes the pen below 100: up to 34
  records fit the first page, and from the 35th on (up to 69) there is a second one.
\<close>

theorem export_pdf_pagination:
  "(rows s = [] \<longrightarrow>
      export_pdf s = PdfFile [[DrawString 200 800 (''Helvetica-Bold'', 18) Title]]) \<and>
   (length (rows s) = 40 \<longrightarrow>
      export_pdf s =
        PdfFile [DrawString 200 800 (''Helvetica-Bold'', 18) Title #
                   lines_from 770 (''Helvetica'', 12) (take 34 (selected s)),
                 lines_from 800 (''Helvetica'', 12) (drop 34 (selected s))] \<and>
      2 \<le> length (case export_pdf s of PdfFile ps \<Rightarrow> ps | _ \<Rightarrow> [])) \<and>
   (length (rows s) \<le> 34 \<longrightarrow>
      export_pdf s =
        PdfFile [DrawString 200 800 (''Helvetica-Bold'', 18) Title #
                   lines_from 770 (''Helvetica'', 12) (selected s)]) \<and>
   (34 < length (rows s) \<and> length (rows s) \<le> 69 \<longrightarrow>
      export_pdf s =
        PdfFile [DrawString 200 800 (''Helvetica-Bold'', 18) Title #
                   lines_from 770 (''Helvetica'', 12) (take 34 (selected s)),
                 lines_from 800 (''Helvetica'', 12) (drop 34 (selected s))])"
proof (intro conjI impI)
  assume "rows s = []"
  then show "export_pdf s = PdfFile [[DrawString 200 800 (''Helvetica-Bold'', 18) Title]]"
    using export_pdf_short[of s] by (simp add: selected_def)
next
  assume a: "length (rows s) = 40"
  then show e: "export_pdf s =
        PdfFile [DrawString 200 800 (''Helvetica-Bold'', 18) Title #
                   lines_from 770 (''Helvetica'', 12) (take 34 (selected s)),
                 lines_from 800 (''Helvetica'', 12) (drop 34 (selected s))]"
    using export_pdf_long[of s] by simp
  show "2 \<le> length (case export_pdf s of PdfFile ps \<Rightarrow> ps | _ \<Rightarrow> [])"
    unfolding e by simp
next
  assume a: "length (rows s) \<le> 34"
  show "export_pdf s =
        PdfFile [DrawString 200 800 (''Helvetica-Bold'', 18) Title #
                   lines_from 770 (''Helvetica'', 12) (selected s)]"
  proof (cases "length (rows s) = 34")
    case True
    then have "take 34 (selected s) = selected s" by (simp add: selected_def)
    with True export_pdf_long[of s] show ?thesis by simp
  next
    case False
    with a have "length (rows s) \<le> 33" by simp
    then show ?thesis by (rule export_pdf_short)
  qed
next
  assume "34 < length (rows s) \<and> length (rows s) \<le> 69"
  then show "export_pdf s =
        PdfFile [DrawString 200 800 (''Helvetica-Bold'', 18) Title #
                   lines_from 770 (''Helvetica'', 12) (take 34 (selected s)),
                 lines_from 800 (''Helvetica'', 12) (drop 34 (selected s))]"
    using export_pdf_long[of s] by simp
qed

theorem export_pdf_pagination_witness:
  "rows (init_db None) = [] \<and>
   export_pdf (init_db None) = PdfFile [[DrawString 200 800 (''Helvetica-Bold'', 18) Title]] \<and>
   length (rows forty_store) = 40 \<and>
   2 \<le> length (case export_pdf forty_store of PdfFile ps \<Rightarrow> ps | _ \<Rightarrow> [])"
proof -
  have z: "rows (init_db None) = []" by (simp add: init_db_def)
  have f: "length (rows forty_store) = 40" by code_simp
  from export_pdf_pagination[of "init_db None"] z
  have a: "export_pdf (init_db None) = PdfFile [[DrawString 200 800 (''Helvetica-Bold'', 18) Title]]"
    by blast
  from export_pdf_pagination[of forty_store] f
  have b: "2 \<le> length (case export_pdf forty_store of PdfFile ps \<Rightarrow> ps | _ \<Rightarrow> [])"
    by blast
  from z a f b show ?thesis by blast
qed

end
